theory Spec2Isabelle
  imports Main "HOL-Library.Word"
begin

section \<open>Values, nodes and the list object\<close>

text \<open>
  Shallow embedding of \<^verbatim>\<open>src/data-structures/linked-lists/linked-list.js\<close>.

  JavaScript objects live in a heap and are named by references. A reference to a node is
  an address; a field that holds either a node or \<^verbatim>\<open>null\<close> is an \<open>addr option\<close>
  (\<open>None\<close> is \<^verbatim>\<open>null\<close>). The heap is total: a JavaScript reference never dangles,
  and \<^verbatim>\<open>new Node\<close> initialises every field of the object it hands out.

  Stored values are JavaScript values. The list never looks inside them, except that
  \<^verbatim>\<open>indexOf\<close> compares them with \<^verbatim>\<open>===\<close> and \<^verbatim>\<open>remove\<close> hands a
  non-function argument to \<^verbatim>\<open>parseInt\<close>. The numbers among the values are the
  integers from \<open>- 2^53\<close> to \<open>2^53 - 1\<close>, the signed values of a 54-bit word
  (\<open>JNum w\<close> is the number \<open>sint w\<close>): JavaScript holds each of them exactly and
  \<^verbatim>\<open>String(n)\<close> is its decimal numeral. Fractions,
  \<^verbatim>\<open>NaN\<close>, infinities and numbers of greater magnitude are not values of the model.
  On these values \<^verbatim>\<open>===\<close> is equality. Positions and indices are integers;
  the default arguments (\<^verbatim>\<open>position = 0\<close>, \<^verbatim>\<open>index = 0\<close>) are written out by
  the caller. The generator and \<^verbatim>\<open>toString\<close> are not part of the model.
\<close>

type_synonym addr = nat

datatype jsval = Undefined | Null | JBool bool | JNum "54 word" | JStr string

datatype error = TypeError

text \<open>
  Modelled from the spec: \<^verbatim>\<open>node.js\<close> is not among the sources. The spec gives a
  node a value and two links, both \<^verbatim>\<open>null\<close> after construction.
\<close>

record node =
  nvalue :: jsval
  previous :: "addr option"
  nnext :: "addr option"

text \<open>
  The list object (\<^verbatim>\<open>first\<close>, \<^verbatim>\<open>last\<close>, \<^verbatim>\<open>size\<close>) together with the
  heap of nodes it points into; \<open>fresh\<close> is the address the next \<^verbatim>\<open>new Node\<close>
  returns.
\<close>

record linked_list =
  heap :: "addr \<Rightarrow> node"
  fresh :: addr
  l_first :: "addr option"
  l_last :: "addr option"
  l_size :: int

definition LinkedList_new :: linked_list where
  "LinkedList_new =
     \<lparr>heap = (\<lambda>_. \<lparr>nvalue = Undefined, previous = None, nnext = None\<rparr>), fresh = 0,
      l_first = None, l_last = None, l_size = 0\<rparr>"

text \<open>Modelled from the spec: \<^verbatim>\<open>new Node(value)\<close>, with both links \<^verbatim>\<open>null\<close>.\<close>

definition new_Node :: "jsval \<Rightarrow> linked_list \<Rightarrow> addr \<times> linked_list" where
  "new_Node v s =
     (fresh s,
      s\<lparr>heap := (heap s)(fresh s := \<lparr>nvalue = v, previous = None, nnext = None\<rparr>),
        fresh := Suc (fresh s)\<rparr>)"

definition set_next :: "addr \<Rightarrow> addr option \<Rightarrow> linked_list \<Rightarrow> linked_list" where
  "set_next a p s = s\<lparr>heap := (heap s)(a := (heap s a)\<lparr>nnext := p\<rparr>)\<rparr>"

definition set_previous :: "addr \<Rightarrow> addr option \<Rightarrow> linked_list \<Rightarrow> linked_list" where
  "set_previous a p s = s\<lparr>heap := (heap s)(a := (heap s a)\<lparr>previous := p\<rparr>)\<rparr>"

section \<open>Insertion at the ends\<close>

definition addFirst :: "jsval \<Rightarrow> linked_list \<Rightarrow> addr \<times> linked_list" where
  "addFirst v s0 =
     (case new_Node v s0 of (newNode, s1) \<Rightarrow>
        let s2 = set_next newNode (l_first s1) s1;
            s3 = (case l_first s2 of
                    Some f \<Rightarrow> set_previous f (Some newNode) s2
                  | None \<Rightarrow> s2\<lparr>l_last := Some newNode\<rparr>);
            s4 = s3\<lparr>l_first := Some newNode\<rparr>
        in (newNode, s4\<lparr>l_size := l_size s4 + 1\<rparr>))"

text \<open>
  \<^verbatim>\<open>this.last.next = newNode\<close> raises a TypeError when \<^verbatim>\<open>first\<close> is set and
  \<^verbatim>\<open>last\<close> is \<^verbatim>\<open>null\<close>.
\<close>

definition addLast :: "jsval \<Rightarrow> linked_list \<Rightarrow> error + addr \<times> linked_list" where
  "addLast v s0 =
     (case new_Node v s0 of (newNode, s1) \<Rightarrow>
        (case l_first s1 of
           Some f \<Rightarrow>
             let s2 = set_previous newNode (l_last s1) s1 in
             (case l_last s2 of
                None \<Rightarrow> Inl TypeError
              | Some l \<Rightarrow>
                  let s3 = set_next l (Some newNode) s2;
                      s4 = s3\<lparr>l_last := Some newNode\<rparr>
                  in Inr (newNode, s4\<lparr>l_size := l_size s4 + 1\<rparr>))
         | None \<Rightarrow>
             let s2 = s1\<lparr>l_first := Some newNode\<rparr>;
                 s3 = s2\<lparr>l_last := Some newNode\<rparr>
             in Inr (newNode, s3\<lparr>l_size := l_size s3 + 1\<rparr>)))"

section \<open>Traversal\<close>

text \<open>
  A callback is arbitrary JavaScript: it may change the list and anything else. The
  program state a callback sees is the list together with the rest of the state, of
  some type \<open>'x\<close>. A callback returns \<open>None\<close> for \<^verbatim>\<open>undefined\<close>.

  The loop of \<^verbatim>\<open>find\<close> follows \<^verbatim>\<open>next\<close> links until it meets
  \<^verbatim>\<open>null\<close>; on a cyclic chain it never returns, which is the value \<open>None\<close> of
  \<open>find_loop\<close>.
\<close>

type_synonym ('r, 'x) callback =
  "addr \<Rightarrow> int \<Rightarrow> linked_list \<times> 'x \<Rightarrow> 'r option \<times> (linked_list \<times> 'x)"

partial_function (option) find_loop ::
  "('r, 'x) callback \<Rightarrow> addr option \<Rightarrow> int \<Rightarrow> linked_list \<times> 'x
     \<Rightarrow> ('r option \<times> (linked_list \<times> 'x)) option" where
  "find_loop callback current position w =
     (case current of
        None \<Rightarrow> Some (None, w)
      | Some c \<Rightarrow>
          (case callback c position w of
             (Some result, w') \<Rightarrow> Some (Some result, w')
           | (None, w') \<Rightarrow> find_loop callback (nnext (heap (fst w') c)) (position + 1) w'))"

definition findL ::
  "('r, 'x) callback \<Rightarrow> linked_list \<times> 'x \<Rightarrow> ('r option \<times> (linked_list \<times> 'x)) option" where
  "findL callback w = find_loop callback (l_first (fst w)) 0 w"

definition get :: "int \<Rightarrow> linked_list \<Rightarrow> (addr option \<times> linked_list) option" where
  "get index s =
     map_option (\<lambda>(r, w). (r, fst w))
       (findL (\<lambda>current position w. (if position = index then Some current else None, w))
          (s, ()))"

definition indexOf :: "jsval \<Rightarrow> linked_list \<Rightarrow> (int option \<times> linked_list) option" where
  "indexOf v s =
     map_option (\<lambda>(r, w). (r, fst w))
       (findL (\<lambda>current position w.
                 (if nvalue (heap (fst w) current) = v then Some position else None, w))
          (s, ()))"

section \<open>Insertion at a position\<close>

text \<open>
  \<^verbatim>\<open>current.previous.next = newNode\<close> raises a TypeError when
  \<^verbatim>\<open>current.previous\<close> is \<^verbatim>\<open>null\<close>. The result \<open>None\<close> of the inner option
  is \<^verbatim>\<open>undefined\<close>.
\<close>

definition add ::
  "jsval \<Rightarrow> int \<Rightarrow> linked_list \<Rightarrow> (error + addr option \<times> linked_list) option" where
  "add v position s0 =
     (if position = 0 then
        (case addFirst v s0 of (n, s) \<Rightarrow> Some (Inr (Some n, s)))
      else if position = l_size s0 then
        (case addLast v s0 of
           Inl e \<Rightarrow> Some (Inl e)
         | Inr (n, s) \<Rightarrow> Some (Inr (Some n, s)))
      else
        (case get position s0 of
           None \<Rightarrow> None
         | Some (None, s1) \<Rightarrow> Some (Inr (None, s1))
         | Some (Some current, s1) \<Rightarrow>
             (case new_Node v s1 of (newNode, s2) \<Rightarrow>
                let s3 = set_previous newNode (previous (heap s2 current)) s2;
                    s4 = set_next newNode (Some current) s3
                in (case previous (heap s4 current) of
                      None \<Rightarrow> Some (Inl TypeError)
                    | Some p \<Rightarrow>
                        let s5 = set_next p (Some newNode) s4;
                            s6 = (case nnext (heap s5 current) of
                                    Some n \<Rightarrow> set_previous n (Some newNode) s5
                                  | None \<Rightarrow> s5)
                        in Some (Inr (Some newNode, s6\<lparr>l_size := l_size s6 + 1\<rparr>))))))"

section \<open>Removal\<close>

text \<open>
  \<^verbatim>\<open>head && head.value\<close> is \<^verbatim>\<open>null\<close> when \<^verbatim>\<open>head\<close> is \<^verbatim>\<open>null\<close>, and the
  stored value otherwise (a node is an object, hence truthy).
\<close>

definition removeFirst :: "linked_list \<Rightarrow> jsval \<times> linked_list" where
  "removeFirst s0 =
     (case l_first s0 of
        Some head \<Rightarrow>
          let s1 = s0\<lparr>l_first := nnext (heap s0 head)\<rparr>;
              s2 = (case l_first s1 of
                      Some f \<Rightarrow> set_previous f None s1
                    | None \<Rightarrow> s1);
              s3 = s2\<lparr>l_size := l_size s2 - 1\<rparr>
          in (nvalue (heap s3 head), s3)
      | None \<Rightarrow> (Null, s0\<lparr>l_last := None\<rparr>))"

definition removeLast :: "linked_list \<Rightarrow> jsval \<times> linked_list" where
  "removeLast s0 =
     (case l_last s0 of
        Some tail \<Rightarrow>
          let s1 = s0\<lparr>l_last := previous (heap s0 tail)\<rparr>;
              s2 = (case l_last s1 of
                      Some l \<Rightarrow> set_next l None s1
                    | None \<Rightarrow> s1\<lparr>l_first := None\<rparr>);
              s3 = s2\<lparr>l_size := l_size s2 - 1\<rparr>
          in (nvalue (heap s3 tail), s3)
      | None \<Rightarrow> (Null, s0))"

text \<open>
  \<^verbatim>\<open>current && current.value\<close>, where \<^verbatim>\<open>current\<close> is what \<^verbatim>\<open>get\<close> returned:
  \<^verbatim>\<open>undefined\<close> or a node.
\<close>

definition value_of :: "addr option \<Rightarrow> linked_list \<Rightarrow> jsval" where
  "value_of current s = (case current of None \<Rightarrow> Undefined | Some c \<Rightarrow> nvalue (heap s c))"

definition removeByPosition ::
  "int \<Rightarrow> linked_list \<Rightarrow> (error + jsval \<times> linked_list) option" where
  "removeByPosition position s0 =
     (case get position s0 of
        None \<Rightarrow> None
      | Some (current, s1) \<Rightarrow>
          if position = 0 then
            (let s2 = snd (removeFirst s1) in Some (Inr (value_of current s2, s2)))
          else if position = l_size s1 - 1 then
            (let s2 = snd (removeLast s1) in Some (Inr (value_of current s2, s2)))
          else
            (case current of
               None \<Rightarrow> Some (Inr (value_of current s1, s1))
             | Some c \<Rightarrow>
                 (case previous (heap s1 c) of
                    None \<Rightarrow> Some (Inl TypeError)
                  | Some p \<Rightarrow>
                      let s2 = set_next p (nnext (heap s1 c)) s1 in
                      (case nnext (heap s2 c) of
                         None \<Rightarrow> Some (Inl TypeError)
                       | Some n \<Rightarrow>
                           let s3 = set_previous n (previous (heap s2 c)) s2;
                               s4 = s3\<lparr>l_size := l_size s3 - 1\<rparr>
                           in Some (Inr (value_of current s4, s4))))))"

subsection \<open>The argument of \<^verbatim>\<open>remove\<close>\<close>

text \<open>
  \<^verbatim>\<open>parseInt(x, 10)\<close> is a built-in: it turns its argument into a string, skips leading
  white space, reads an optional sign and then the longest run of decimal digits; with no
  digit the result is \<^verbatim>\<open>NaN\<close>, here \<open>None\<close>. Strings are lists of 8-bit characters,
  so the white space is the ASCII white space and the no-break space. The result is the
  integer the digits denote; JavaScript rounds it to a double when it exceeds \<open>2^53\<close>,
  beyond every position a list has.
\<close>

definition is_space :: "char \<Rightarrow> bool" where
  "is_space c = (of_char c \<in> {9, 10, 11, 12, 13, 32, 160 :: nat})"

definition is_digit :: "char \<Rightarrow> bool" where
  "is_digit c = (48 \<le> (of_char c :: nat) \<and> (of_char c :: nat) \<le> 57)"

definition digits_value :: "string \<Rightarrow> int" where
  "digits_value ds = foldl (\<lambda>acc c. acc * 10 + (of_char c - 48)) 0 ds"

text \<open>The decimal numeral of a non-negative integer.\<close>

function show_digits :: "int \<Rightarrow> string" where
  "show_digits n =
     (if n < 10 then [char_of (48 + n)]
      else show_digits (n div 10) @ [char_of (48 + n mod 10)])"
  by pat_completeness auto
termination
  by (relation "measure nat") auto

definition to_string :: "jsval \<Rightarrow> string" where
  "to_string v =
     (case v of
        Undefined \<Rightarrow> ''undefined''
      | Null \<Rightarrow> ''null''
      | JBool b \<Rightarrow> (if b then ''true'' else ''false'')
      | JNum n \<Rightarrow>
          (if sint n < 0 then CHR ''-'' # show_digits (- sint n) else show_digits (sint n))
      | JStr s \<Rightarrow> s)"

definition parseInt :: "jsval \<Rightarrow> int option" where
  "parseInt v =
     (let t = dropWhile is_space (to_string v);
          neg = (t \<noteq> [] \<and> hd t = CHR ''-'');
          u = (if t \<noteq> [] \<and> (hd t = CHR ''-'' \<or> hd t = CHR ''+'') then tl t else t);
          ds = takeWhile is_digit u
      in if ds = [] then None
         else Some (if neg then - digits_value ds else digits_value ds))"

text \<open>\<^verbatim>\<open>n || 0\<close> for a number \<open>n\<close>: zero when \<open>n\<close> is \<^verbatim>\<open>NaN\<close> or \<open>0\<close>.\<close>

definition or_zero :: "int option \<Rightarrow> int" where
  "or_zero n = (case n of None \<Rightarrow> 0 | Some k \<Rightarrow> (if k = 0 then 0 else k))"

text \<open>
  The argument of \<^verbatim>\<open>remove\<close> is a function (whose result is read for its truthiness)
  or any other value.
\<close>

datatype 'x remove_arg =
    Fn "addr \<Rightarrow> int \<Rightarrow> linked_list \<times> 'x \<Rightarrow> bool \<times> (linked_list \<times> 'x)"
  | NotFn jsval

definition removeL ::
  "'x remove_arg \<Rightarrow> linked_list \<times> 'x \<Rightarrow> (error + jsval \<times> (linked_list \<times> 'x)) option" where
  "removeL callbackOrIndex w =
     (case callbackOrIndex of
        NotFn v \<Rightarrow>
          (case removeByPosition (or_zero (parseInt v)) (fst w) of
             None \<Rightarrow> None
           | Some (Inl e) \<Rightarrow> Some (Inl e)
           | Some (Inr (r, s)) \<Rightarrow> Some (Inr (r, (s, snd w))))
      | Fn f \<Rightarrow>
          (case findL (\<lambda>node index w'.
                         case f node index w' of
                           (b, w'') \<Rightarrow> (if b then Some index else None, w'')) w of
             None \<Rightarrow> None
           | Some (None, w1) \<Rightarrow> Some (Inr (JBool False, w1))
           | Some (Some position, w1) \<Rightarrow>
               (case removeByPosition position (fst w1) of
                  None \<Rightarrow> None
                | Some (Inl e) \<Rightarrow> Some (Inl e)
                | Some (Inr (r, s)) \<Rightarrow> Some (Inr (r, (s, snd w1))))))"

section \<open>The invariants of the data model\<close>

text \<open>
  \<open>chain h p ns q\<close>: following \<^verbatim>\<open>next\<close> from \<open>p\<close> visits the nodes \<open>ns\<close> in this
  order and then arrives at \<open>q\<close>. The nodes of a list are the chain from
  \<^verbatim>\<open>first\<close> to \<^verbatim>\<open>null\<close>.
\<close>

fun chain :: "(addr \<Rightarrow> node) \<Rightarrow> addr option \<Rightarrow> addr list \<Rightarrow> addr option \<Rightarrow> bool" where
  "chain h p [] q = (p = q)"
| "chain h p (a # as) q = (p = Some a \<and> chain h (nnext (h a)) as q)"

definition nodes_are :: "linked_list \<Rightarrow> addr list \<Rightarrow> bool" where
  "nodes_are s ns = chain (heap s) (l_first s) ns None"

text \<open>Invariant 1: \<^verbatim>\<open>size == 0\<close> iff \<^verbatim>\<open>first == null\<close> iff \<^verbatim>\<open>last == null\<close>.\<close>

definition anchors_agree :: "linked_list \<Rightarrow> bool" where
  "anchors_agree s =
     (((l_size s = 0) = (l_first s = None)) \<and> ((l_first s = None) = (l_last s = None)))"

text \<open>
  Invariant 2, over the nodes \<open>ns\<close> of the list: a node's successor points back to it, and
  a node's predecessor points forward to it.
\<close>

definition links_consistent :: "linked_list \<Rightarrow> addr list \<Rightarrow> bool" where
  "links_consistent s ns =
     list_all (\<lambda>n.
        (case nnext (heap s n) of
           None \<Rightarrow> True
         | Some m \<Rightarrow> previous (heap s m) = Some n) \<and>
        (case previous (heap s n) of
           None \<Rightarrow> True
         | Some m \<Rightarrow> nnext (heap s m) = Some n)) ns"

text \<open>Invariant 3: \<^verbatim>\<open>first.previous\<close> and \<^verbatim>\<open>last.next\<close> are \<^verbatim>\<open>null\<close>.\<close>

definition ends_closed :: "linked_list \<Rightarrow> bool" where
  "ends_closed s =
     ((case l_first s of None \<Rightarrow> True | Some f \<Rightarrow> previous (heap s f) = None) \<and>
      (case l_last s of None \<Rightarrow> True | Some l \<Rightarrow> nnext (heap s l) = None))"

text \<open>
  Invariant 4: the chain from \<^verbatim>\<open>first\<close> has \<^verbatim>\<open>size\<close> nodes, ends in
  \<^verbatim>\<open>last\<close>, and the link after it is \<^verbatim>\<open>null\<close>.
\<close>

definition size_reaches_last :: "linked_list \<Rightarrow> addr list \<Rightarrow> bool" where
  "size_reaches_last s ns =
     (nodes_are s ns \<and> l_size s = int (length ns) \<and>
      l_last s = (if ns = [] then None else Some (last ns)))"

text \<open>
  All four, for a list whose nodes are \<open>ns\<close>; the nodes were handed out by
  \<^verbatim>\<open>new Node\<close>, so the next one is different from each of them.
\<close>

definition invariants :: "linked_list \<Rightarrow> addr list \<Rightarrow> bool" where
  "invariants s ns =
     (anchors_agree s \<and> links_consistent s ns \<and> ends_closed s \<and> size_reaches_last s ns \<and>
      list_all (\<lambda>n. n < fresh s) ns)"

section \<open>The traversal in the words of the specification\<close>

text \<open>
  Call the callback on each node of \<open>ns\<close> in order, with positions counting up from
  \<open>position\<close>; stop at the first result that is not \<^verbatim>\<open>undefined\<close> and return it;
  return \<^verbatim>\<open>undefined\<close> when the nodes run out.
\<close>

fun visit ::
  "('r, 'x) callback \<Rightarrow> addr list \<Rightarrow> int \<Rightarrow> linked_list \<times> 'x \<Rightarrow> 'r option \<times> (linked_list \<times> 'x)" where
  "visit callback [] position w = (None, w)"
| "visit callback (n # ns) position w =
     (case callback n position w of
        (Some result, w') \<Rightarrow> (Some result, w')
      | (None, w') \<Rightarrow> visit callback ns (position + 1) w')"

text \<open>
  The search of \<^verbatim>\<open>remove\<close> in the same words: call the predicate on each node of
  \<open>ns\<close> in order and stop at the first node it accepts; the result is that node's position
  (or nothing) and the state the calls leave.
\<close>

fun first_accept ::
  "(addr \<Rightarrow> int \<Rightarrow> linked_list \<times> 'x \<Rightarrow> bool \<times> (linked_list \<times> 'x)) \<Rightarrow> addr list \<Rightarrow> int
     \<Rightarrow> linked_list \<times> 'x \<Rightarrow> int option \<times> (linked_list \<times> 'x)" where
  "first_accept f [] position w = (None, w)"
| "first_accept f (n # ns) position w =
     (case f n position w of
        (b, w') \<Rightarrow> if b then (Some position, w') else first_accept f ns (position + 1) w')"

text \<open>
  With the forward chain given, invariants 2 and 3 say where each \<^verbatim>\<open>previous\<close> link
  points: to the node before, and to \<^verbatim>\<open>null\<close> at the head (lemma \<open>invariants_iff\<close>).
\<close>

definition back_links :: "linked_list \<Rightarrow> addr list \<Rightarrow> bool" where
  "back_links s ns =
     (\<forall>i < length ns. previous (heap s (ns ! i)) = (if i = 0 then None else Some (ns ! (i - 1))))"

section \<open>Small lists\<close>

text \<open>
  \<^verbatim>\<open>addFirst(1)\<close> on a new list, and \<^verbatim>\<open>addFirst(2); addFirst(1)\<close> on a new list: the
  lists \<open>[1]\<close> (node \<open>0\<close>) and \<open>[1, 2]\<close> (nodes \<open>1\<close> and \<open>0\<close>). The third is
  \<^verbatim>\<open>addFirst(1); removeFirst(); removeLast()\<close> on a new list.
\<close>

definition one_node :: linked_list where
  "one_node = snd (addFirst (JNum 1) LinkedList_new)"

definition two_nodes :: linked_list where
  "two_nodes = snd (addFirst (JNum 1) (snd (addFirst (JNum 2) LinkedList_new)))"

definition emptied_twice :: linked_list where
  "emptied_twice = snd (removeLast (snd (removeFirst one_node)))"

section \<open>Unfolding the loop\<close>

lemma find_loop_null [simp, code]: "find_loop callback None position w = Some (None, w)"
  by (subst find_loop.simps) simp

lemma find_loop_node [simp, code]:
  "find_loop callback (Some c) position w =
     (case callback c position w of
        (Some result, w') \<Rightarrow> Some (Some result, w')
      | (None, w') \<Rightarrow> find_loop callback (nnext (heap (fst w') c)) (position + 1) w')"
  by (subst find_loop.simps) simp

section \<open>Chains in the heap\<close>

lemma chain_append: "chain h p (xs @ ys) q = (\<exists>m. chain h p xs m \<and> chain h m ys q)"
  by (induction xs arbitrary: p) auto

lemma chain_frame: "a \<notin> set ns \<Longrightarrow> chain (h(a := x)) p ns q = chain h p ns q"
  by (induction ns arbitrary: p) auto

lemma chain_same_next:
  "nnext x = nnext (h a) \<Longrightarrow> chain (h(a := x)) p ns q = chain h p ns q"
  by (induction ns arbitrary: p) auto

lemma chain_unique: "chain h p xs None \<Longrightarrow> chain h p ys None \<Longrightarrow> xs = ys"
proof (induction xs arbitrary: p ys)
  case Nil then show ?case by (cases ys) auto
next
  case (Cons a xs) then show ?case by (cases ys) auto
qed

lemma chain_head_notin: "chain h (nnext (h a)) as None \<Longrightarrow> a \<notin> set as"
proof
  assume c: "chain h (nnext (h a)) as None" and "a \<in> set as"
  then obtain xs ys where as: "as = xs @ a # ys" by (auto simp: in_set_conv_decomp)
  with c obtain m where "chain h m (a # ys) None" by (auto simp: chain_append)
  then have "chain h (nnext (h a)) ys None" by simp
  with c have "as = ys" by (rule chain_unique)
  with as show False by simp
qed

lemma chain_distinct: "chain h p ns None \<Longrightarrow> distinct ns"
  by (induction ns arbitrary: p) (auto dest: chain_head_notin)

lemma chain_nth_next:
  "chain h p ns None \<Longrightarrow> i < length ns \<Longrightarrow>
   nnext (h (ns ! i)) = (if Suc i < length ns then Some (ns ! Suc i) else None)"
proof (induction ns arbitrary: p i)
  case Nil then show ?case by simp
next
  case (Cons a as)
  show ?case
  proof (cases i)
    case 0 with Cons.prems show ?thesis by (cases as) auto
  next
    case (Suc j) with Cons show ?thesis by auto
  qed
qed

lemma find_loop_visit:
  assumes "\<forall>c p w. fst (snd (cb c p w)) = fst w"
  shows "chain (heap s) cur ns None \<Longrightarrow>
         find_loop cb cur pos (s, x) = Some (visit cb ns pos (s, x))"
proof (induction ns arbitrary: cur pos x)
  case Nil then show ?case by simp
next
  case (Cons a as)
  obtain r s' x' where c: "cb a pos (s, x) = (r, (s', x'))" by (metis prod.exhaust)
  with assms have s': "s' = s" by (metis fst_conv snd_conv)
  from Cons.prems have cur: "cur = Some a" and tl: "chain (heap s) (nnext (heap s a)) as None" by auto
  show ?case using Cons.IH[OF tl] by (cases r) (simp_all add: cur c s')
qed

section \<open>What the queries return on a list\<close>

lemma visit_get:
  "visit (\<lambda>current position w. (if position = index then Some current else None, w)) ns pos w =
     (if pos \<le> index \<and> index < pos + int (length ns) then Some (ns ! nat (index - pos)) else None, w)"
proof (induction ns arbitrary: pos)
  case Nil then show ?case by simp
next
  case (Cons a as)
  show ?case
  proof (cases "pos = index")
    case True then show ?thesis by simp
  next
    case False
    then have "nat (index - pos) = Suc (nat (index - (pos + 1)))" if "pos \<le> index" using that by simp
    with False show ?thesis by (auto simp: Cons.IH)
  qed
qed

lemma get_nodes:
  assumes "nodes_are s ns"
  shows "get index s =
     Some (if 0 \<le> index \<and> index < int (length ns) then Some (ns ! nat index) else None, s)"
proof -
  have "find_loop (\<lambda>current position w. (if position = index then Some current else None, w))
          (l_first s) 0 (s, ()) =
        Some (visit (\<lambda>current position w. (if position = index then Some current else None, w)) ns 0 (s, ()))"
    using assms by (intro find_loop_visit) (simp_all add: nodes_are_def)
  then show ?thesis by (simp add: get_def findL_def visit_get)
qed

lemma visit_indexOf:
  "visit (\<lambda>current position w. (if nvalue (heap (fst w) current) = v then Some position else None, w)) ns pos w =
     (let k = length (takeWhile (\<lambda>n. nvalue (heap (fst w) n) \<noteq> v) ns)
      in (if k < length ns then Some (pos + int k) else None, w))"
  by (induction ns arbitrary: pos) (auto simp: Let_def)

lemma indexOf_nodes:
  assumes "nodes_are s ns"
  shows "indexOf v s =
     Some (let k = length (takeWhile (\<lambda>n. nvalue (heap s n) \<noteq> v) ns)
           in if k < length ns then Some (int k) else None, s)"
proof -
  let ?cb = "\<lambda>current position (w :: linked_list \<times> unit). (if nvalue (heap (fst w) current) = v then Some position else None, w)"
  have "find_loop ?cb (l_first s) 0 (s, ()) = Some (visit ?cb ns 0 (s, ()))"
    using assms by (intro find_loop_visit) (simp_all add: nodes_are_def)
  then show ?thesis by (simp add: indexOf_def findL_def visit_indexOf Let_def)
qed

section \<open>The invariants, node by node\<close>

lemma chain_first: "chain h p ns None \<Longrightarrow> p = (if ns = [] then None else Some (hd ns))"
  by (cases ns) auto

lemma invariants_back_links:
  assumes "invariants s ns"
  shows "back_links s ns"
  unfolding back_links_def
proof (intro allI impI)
  fix i assume i: "i < length ns"
  from assms have ch: "chain (heap s) (l_first s) ns None"
    and lc: "links_consistent s ns" and ec: "ends_closed s"
    by (simp_all add: invariants_def size_reaches_last_def nodes_are_def)
  show "previous (heap s (ns ! i)) = (if i = 0 then None else Some (ns ! (i - 1)))"
  proof (cases i)
    case 0
    with i have "l_first s = Some (ns ! 0)" using chain_first[OF ch] by (cases ns) auto
    with ec 0 show ?thesis by (simp add: ends_closed_def)
  next
    case (Suc j)
    with i have j: "j < length ns" by simp
    have "nnext (heap s (ns ! j)) = Some (ns ! i)"
      using chain_nth_next[OF ch j] i Suc by simp
    moreover have "ns ! j \<in> set ns" using j by simp
    ultimately have "previous (heap s (ns ! i)) = Some (ns ! j)"
      using lc by (auto simp: links_consistent_def list_all_iff)
    with Suc show ?thesis by simp
  qed
qed

lemma invariants_iff:
  "invariants s ns \<longleftrightarrow>
     nodes_are s ns \<and> l_size s = int (length ns) \<and>
     l_last s = (if ns = [] then None else Some (last ns)) \<and>
     back_links s ns \<and> (\<forall>n \<in> set ns. n < fresh s)"
  (is "?L \<longleftrightarrow> ?R")
proof
  assume ?L
  then show ?R
    using invariants_back_links[of s ns]
    by (simp add: invariants_def size_reaches_last_def list_all_iff)
next
  assume R: ?R
  then have ch: "chain (heap s) (l_first s) ns None" and bl: "back_links s ns"
    by (simp_all add: nodes_are_def)
  have fst: "l_first s = (if ns = [] then None else Some (hd ns))" by (rule chain_first[OF ch])
  have "anchors_agree s" using R fst by (auto simp: anchors_agree_def)
  moreover have "ends_closed s"
  proof (cases "ns = []")
    case True with R fst show ?thesis by (simp add: ends_closed_def)
  next
    case False
    then have l: "length ns - 1 < length ns" by simp
    have "nnext (heap s (last ns)) = None"
      using chain_nth_next[OF ch l] False by (simp add: last_conv_nth)
    moreover have "previous (heap s (hd ns)) = None"
      using bl False by (auto simp: back_links_def hd_conv_nth)
    ultimately show ?thesis using R fst False by (simp add: ends_closed_def)
  qed
  moreover have "links_consistent s ns"
    unfolding links_consistent_def list_all_iff
  proof (intro ballI conjI)
    fix n assume "n \<in> set ns"
    then obtain i where i: "i < length ns" and n: "n = ns ! i" by (auto simp: in_set_conv_nth)
    show "case nnext (heap s n) of None \<Rightarrow> True | Some m \<Rightarrow> previous (heap s m) = Some n"
      using chain_nth_next[OF ch i] bl n i by (auto simp: back_links_def)
    show "case previous (heap s n) of None \<Rightarrow> True | Some m \<Rightarrow> nnext (heap s m) = Some n"
    proof (cases i)
      case 0 with bl i n show ?thesis by (auto simp: back_links_def)
    next
      case (Suc j)
      with i have j: "j < length ns" by simp
      have "previous (heap s n) = Some (ns ! j)" using bl i n Suc by (auto simp: back_links_def)
      moreover have "nnext (heap s (ns ! j)) = Some n" using chain_nth_next[OF ch j] i n Suc by simp
      ultimately show ?thesis by simp
    qed
  qed
  ultimately show ?L using R by (simp add: invariants_def size_reaches_last_def list_all_iff)
qed

lemma invariants_frame:
  assumes "invariants s ns" and "\<forall>n \<in> set ns. heap s' n = heap s n"
    and "l_first s' = l_first s" and "l_last s' = l_last s" and "l_size s' = l_size s"
    and "fresh s \<le> fresh s'"
  shows "invariants s' ns"
proof -
  have ch: "chain h' p ms q = chain h p ms q" if "\<forall>n \<in> set ms. h' n = h n" for h h' p ms q
    using that by (induction ms arbitrary: p) auto
  from assms(1) have R: "nodes_are s ns" "l_size s = int (length ns)"
    "l_last s = (if ns = [] then None else Some (last ns))" "back_links s ns" "\<forall>n \<in> set ns. n < fresh s"
    by (simp_all add: invariants_iff)
  have "nodes_are s' ns" using R(1) assms(2,3) ch[of ns "heap s'" "heap s"] by (simp add: nodes_are_def)
  moreover have "back_links s' ns" using R(4) assms(2) by (simp add: back_links_def)
  moreover have "\<forall>n \<in> set ns. n < fresh s'" using R(5) assms(6) by auto
  ultimately show ?thesis using R(2,3) assms(4,5) by (simp add: invariants_iff)
qed

lemma visit_keeps_list:
  assumes "\<forall>c p w. fst (snd (cb c p w)) = fst w"
  shows "fst (snd (visit cb ns pos w)) = fst w"
proof (induction ns arbitrary: pos w)
  case Nil show ?case by simp
next
  case (Cons a as)
  obtain r w' where c: "cb a pos w = (r, w')" by (cases "cb a pos w")
  with assms have "fst w' = fst w" by (metis snd_conv)
  with Cons c show ?case by (cases r) simp_all
qed

section \<open>Unlinking a node\<close>

lemma chain_unlink:
  assumes "chain h p (xs @ b # c # ys) None"
  shows "chain (h(b := (h b)\<lparr>nnext := nnext (h c)\<rparr>)) p (xs @ b # ys) None"
proof -
  from assms have d: "distinct (xs @ b # c # ys)" by (rule chain_distinct)
  from assms obtain m where m: "chain h p xs m" "chain h m (b # c # ys) None"
    by (auto simp: chain_append)
  then have mb: "m = Some b" and ys: "chain h (nnext (h c)) ys None" by auto
  let ?h = "h(b := (h b)\<lparr>nnext := nnext (h c)\<rparr>)"
  from d have "b \<notin> set xs" "b \<notin> set ys" by auto
  then have "chain ?h p xs (Some b)" "chain ?h (nnext (h c)) ys None"
    using m(1) mb ys by (simp_all add: chain_frame)
  then show ?thesis by (auto simp: chain_append)
qed

lemma split_at_pair:
  assumes "0 < k" "k < length ns"
  shows "ns = take (k - 1) ns @ ns ! (k - 1) # ns ! k # drop (Suc k) ns"
    and "take k ns @ drop (Suc k) ns = take (k - 1) ns @ ns ! (k - 1) # drop (Suc k) ns"
proof -
  from assms obtain j where j: "k = Suc j" by (cases k) auto
  with assms have jl: "j < length ns" by simp
  have "ns = take j ns @ ns ! j # drop (Suc j) ns" using jl by (rule id_take_nth_drop)
  also have "drop (Suc j) ns = ns ! k # drop (Suc k) ns"
    using assms j by (simp add: Cons_nth_drop_Suc)
  finally show "ns = take (k - 1) ns @ ns ! (k - 1) # ns ! k # drop (Suc k) ns"
    using j by simp
  show "take k ns @ drop (Suc k) ns = take (k - 1) ns @ ns ! (k - 1) # drop (Suc k) ns"
    using j jl by (simp add: take_Suc_conv_app_nth)
qed

lemma chain_unlink_nth:
  assumes "chain h p ns None" "0 < k" "k < length ns"
  shows "chain (h(ns ! (k - 1) := (h (ns ! (k - 1)))\<lparr>nnext := nnext (h (ns ! k))\<rparr>)) p
           (take k ns @ drop (Suc k) ns) None"
proof -
  have "chain h p (take (k - 1) ns @ ns ! (k - 1) # ns ! k # drop (Suc k) ns) None"
    using assms(1) split_at_pair(1)[OF assms(2,3)] by simp
  then have "chain (h(ns ! (k - 1) := (h (ns ! (k - 1)))\<lparr>nnext := nnext (h (ns ! k))\<rparr>)) p
           (take (k - 1) ns @ ns ! (k - 1) # drop (Suc k) ns) None"
    by (rule chain_unlink)
  then show ?thesis using split_at_pair(2)[OF assms(2,3)] by simp
qed

lemma removeFirst_nodes:
  assumes "nodes_are s (a # as)"
  shows "fst (removeFirst s) = nvalue (heap s a) \<and> nodes_are (snd (removeFirst s)) as \<and>
         l_size (snd (removeFirst s)) = l_size s - 1"
proof -
  from assms have f: "l_first s = Some a" and ch: "chain (heap s) (nnext (heap s a)) as None"
    by (simp_all add: nodes_are_def)
  show ?thesis
  proof (cases "nnext (heap s a)")
    case None
    with ch f show ?thesis
      by (simp add: removeFirst_def nodes_are_def Let_def)
  next
    case (Some b)
    have "chain ((heap s)(b := (heap s b)\<lparr>previous := None\<rparr>)) (Some b) as None"
      using ch Some by (simp add: chain_same_next)
    with f Some show ?thesis
      by (simp add: removeFirst_def nodes_are_def Let_def set_previous_def)
  qed
qed

lemma removeLast_nodes:
  assumes "invariants s ns" "ns \<noteq> []"
  shows "fst (removeLast s) = nvalue (heap s (last ns)) \<and>
         nodes_are (snd (removeLast s)) (butlast ns) \<and>
         l_size (snd (removeLast s)) = l_size s - 1"
proof -
  from assms(1) have R: "nodes_are s ns" "l_last s = (if ns = [] then None else Some (last ns))"
    "back_links s ns"
    using invariants_iff[of s ns] by simp_all
  then have ch: "chain (heap s) (l_first s) ns None" by (simp add: nodes_are_def)
  let ?k = "length ns - 1"
  from assms(2) have k: "?k < length ns" by simp
  have l: "l_last s = Some (ns ! ?k)" using R(2) assms(2) by (simp add: last_conv_nth)
  have pv: "previous (heap s (ns ! ?k)) = (if ?k = 0 then None else Some (ns ! (?k - 1)))"
    using R(3) k by (simp add: back_links_def)
  have nx: "nnext (heap s (ns ! ?k)) = None" using chain_nth_next[OF ch k] by simp
  show ?thesis
  proof (cases "?k = 0")
    case True
    then have "butlast ns = []" using assms(2) by (cases ns) auto
    with True l pv show ?thesis
      by (simp add: removeLast_def nodes_are_def Let_def last_conv_nth assms(2))
  next
    case False
    then have k0: "0 < ?k" by simp
    have "chain ((heap s)(ns ! (?k - 1) := (heap s (ns ! (?k - 1)))\<lparr>nnext := None\<rparr>)) (l_first s)
            (take ?k ns @ drop (Suc ?k) ns) None"
      using chain_unlink_nth[OF ch k0 k] nx by simp
    moreover have "take ?k ns @ drop (Suc ?k) ns = butlast ns" by (simp add: butlast_conv_take)
    moreover have "ns ! (?k - 1) \<noteq> ns ! ?k"
      using chain_distinct[OF ch] k k0 by (simp add: nth_eq_iff_index_eq)
    ultimately show ?thesis using False l pv
      by (simp add: removeLast_def nodes_are_def Let_def set_next_def last_conv_nth assms(2))
  qed
qed

section \<open>Removal by position on a list\<close>

lemma removeByPosition_absent:
  assumes "invariants s ns" and "position < 0 \<or> int (length ns) \<le> position"
  shows "removeByPosition position s = Some (Inr (Undefined, s))"
proof -
  from assms(1) have R: "nodes_are s ns" "l_size s = int (length ns)"
    "l_last s = (if ns = [] then None else Some (last ns))"
    using invariants_iff[of s ns] by simp_all
  have f: "l_first s = (if ns = [] then None else Some (hd ns))"
    using R(1) chain_first by (simp add: nodes_are_def)
  have g: "get position s = Some (None, s)" using assms(2) by (auto simp: get_nodes[OF R(1)])
  have same: "s\<lparr>l_last := None\<rparr> = s" if "l_last s = None" using that by (cases s) simp
  show ?thesis
  proof (cases "ns = []")
    case True
    with R f have e: "l_first s = None" "l_last s = None" "l_size s = 0" by simp_all
    show ?thesis
      by (simp add: removeByPosition_def g e removeFirst_def removeLast_def value_of_def same)
  next
    case False
    with assms(2) R(2) have "position \<noteq> 0" "position \<noteq> l_size s - 1" by auto
    then show ?thesis by (simp add: removeByPosition_def g value_of_def)
  qed
qed

lemma removeByPosition_present:
  assumes "invariants s ns" and "k < length ns"
  shows "\<exists>s'. removeByPosition (int k) s = Some (Inr (nvalue (heap s (ns ! k)), s')) \<and>
              nodes_are s' (take k ns @ drop (Suc k) ns) \<and> l_size s' = l_size s - 1"
proof -
  from assms(1) have R: "nodes_are s ns" "l_size s = int (length ns)"
    "l_last s = (if ns = [] then None else Some (last ns))" "back_links s ns"
    using invariants_iff[of s ns] by simp_all
  then have ch: "chain (heap s) (l_first s) ns None" by (simp add: nodes_are_def)
  from assms(2) have ne: "ns \<noteq> []" by auto
  have g: "get (int k) s = Some (Some (ns ! k), s)" using assms(2) by (simp add: get_nodes[OF R(1)])
  consider (head) "k = 0" | (tail) "k \<noteq> 0" "Suc k = length ns" | (mid) "0 < k" "Suc k < length ns"
    using assms(2) by linarith
  then show ?thesis
  proof cases
    case head
    from ne obtain a as where ns: "ns = a # as" by (cases ns) auto
    have nv: "nvalue (heap (snd (removeFirst s)) a) = nvalue (heap s a)"
      using R(1) ns by (simp add: removeFirst_def nodes_are_def Let_def set_previous_def split: option.split)
    have g0: "get 0 s = Some (Some a, s)" using g head ns by simp
    show ?thesis
      using removeFirst_nodes[of s a as] R(1) ns head nv
      by (simp add: removeByPosition_def g0 value_of_def Let_def)
  next
    case tail
    then have k: "k = length ns - 1" by simp
    have lst: "last ns = ns ! k" using ne k by (simp add: last_conv_nth)
    have nv: "nvalue (heap (snd (removeLast s)) (ns ! k)) = nvalue (heap s (ns ! k))"
      using R(3) ne by (simp add: removeLast_def Let_def set_next_def split: option.split)
    have bl: "butlast ns = take k ns @ drop (Suc k) ns" using k by (simp add: butlast_conv_take)
    show ?thesis
      using removeLast_nodes[OF assms(1) ne] tail R(2) nv lst bl
      by (simp add: removeByPosition_def g value_of_def Let_def)
  next
    case mid
    let ?c = "ns ! k" and ?p = "ns ! (k - 1)" and ?n = "ns ! Suc k"
    have pv: "previous (heap s ?c) = Some ?p" using R(4) assms(2) mid by (simp add: back_links_def)
    have nx: "nnext (heap s ?c) = Some ?n" using chain_nth_next[OF ch assms(2)] mid by simp
    have d: "distinct ns" by (rule chain_distinct[OF ch])
    have pc: "?p \<noteq> ?c" using d mid assms(2) by (simp add: nth_eq_iff_index_eq)
    have c1: "chain ((heap s)(?p := (heap s ?p)\<lparr>nnext := Some ?n\<rparr>)) (l_first s)
            (take k ns @ drop (Suc k) ns) None"
      using chain_unlink_nth[OF ch mid(1) assms(2)] nx by simp
    let ?h1 = "(heap s)(?p := (heap s ?p)\<lparr>nnext := Some ?n\<rparr>)"
    have c2: "chain (?h1(?n := (?h1 ?n)\<lparr>previous := Some ?p\<rparr>)) (l_first s)
            (take k ns @ drop (Suc k) ns) None"
      using c1 by (simp add: chain_same_next)
    have nc: "?n \<noteq> ?c" using d mid by (simp add: nth_eq_iff_index_eq)
    from mid R(2) have p0: "int k \<noteq> 0" "int k \<noteq> l_size s - 1" by simp_all
    show ?thesis using c2 pc nc pv nx p0
      by (simp add: removeByPosition_def g value_of_def Let_def set_next_def set_previous_def nodes_are_def)
  qed
qed

lemma removeByPosition_zero:
  assumes "nodes_are s (a # as)"
  shows "removeByPosition 0 s = Some (Inr (nvalue (heap s a), snd (removeFirst s)))"
proof -
  have g0: "get 0 s = Some (Some a, s)" by (simp add: get_nodes[OF assms])
  have nv: "nvalue (heap (snd (removeFirst s)) a) = nvalue (heap s a)"
    using assms
    by (simp add: removeFirst_def nodes_are_def Let_def set_previous_def split: option.split)
  show ?thesis by (simp add: removeByPosition_def g0 value_of_def Let_def nv)
qed

lemma visit_accept:
  "visit (\<lambda>node index w'. case f node index w' of
                             (b, w'') \<Rightarrow> (if b then Some index else None, w'')) ns pos w =
     first_accept f ns pos w"
  by (induction ns arbitrary: pos w) (auto split: prod.splits)

lemma first_accept_bounds:
  "first_accept f ns pos w = (Some k, w') \<Longrightarrow> pos \<le> k \<and> k < pos + int (length ns)"
proof (induction ns arbitrary: pos w)
  case Nil then show ?case by simp
next
  case (Cons a as)
  obtain b w1 where f: "f a pos w = (b, w1)" by (cases "f a pos w")
  show ?case
  proof (cases b)
    case True with Cons.prems f show ?thesis by simp
  next
    case False
    with Cons.prems f have "first_accept f as (pos + 1) w1 = (Some k, w')" by simp
    from Cons.IH[OF this] show ?thesis by simp
  qed
qed

lemma findL_accept:
  assumes "nodes_are s ns" and "\<forall>node index w. fst (snd (f node index w)) = fst w"
  shows "findL (\<lambda>node index w'. case f node index w' of
                             (b, w'') \<Rightarrow> (if b then Some index else None, w'')) (s, x) =
         Some (first_accept f ns 0 (s, x)) \<and>
         fst (snd (first_accept f ns 0 (s, x))) = s"
proof -
  let ?cb = "\<lambda>node index w'. case f node index w' of
                             (b, w'') \<Rightarrow> (if b then Some index else None, w'')"
  have p: "\<forall>c p w. fst (snd (?cb c p w)) = fst w"
    using assms(2) by (simp add: split_beta)
  have "find_loop ?cb (l_first s) 0 (s, x) = Some (visit ?cb ns 0 (s, x))"
    using assms(1) by (intro find_loop_visit[OF p]) (simp add: nodes_are_def)
  moreover have "fst (snd (visit ?cb ns 0 (s, x))) = s"
    using visit_keeps_list[OF p, of ns 0 "(s, x)"] by simp
  ultimately show ?thesis by (simp add: findL_def visit_accept)
qed

text \<open>
  On a list whose chain from \<^verbatim>\<open>first\<close> has \<^verbatim>\<open>size\<close> nodes, \<^verbatim>\<open>get(i)\<close> with
  \<open>i\<close> outside \<open>[0, size - 1]\<close> and \<^verbatim>\<open>add(v, p)\<close> with \<open>p\<close> outside \<open>[0, size]\<close>
  return \<^verbatim>\<open>undefined\<close> and leave the whole state as it was.
\<close>

lemma out_of_range_on_counted_list:
  assumes "nodes_are s ns" and "l_size s = int (length ns)"
  shows "(index < 0 \<or> l_size s - 1 < index \<longrightarrow> get index s = Some (None, s)) \<and>
         (position < 0 \<or> l_size s < position \<longrightarrow> add v position s = Some (Inr (None, s)))"
  using assms by (auto simp: get_nodes[OF assms(1)] add_def)

section \<open>Claims about the operations\<close>

text \<open>
  Claim C5 asks that \<^verbatim>\<open>add(v, p)\<close> with \<open>p\<close> outside \<open>[0, size]\<close> returns
  \<^verbatim>\<open>undefined\<close> and leaves the list alone, for every list. After
  \<^verbatim>\<open>addFirst(1); removeFirst(); removeLast()\<close> the list is empty (\<^verbatim>\<open>first\<close> and
  \<^verbatim>\<open>last\<close> are \<^verbatim>\<open>null\<close>) with \<^verbatim>\<open>size\<close> \<open>- 1\<close>: \<^verbatim>\<open>removeFirst\<close> left
  \<^verbatim>\<open>last\<close> on the removed node, and \<^verbatim>\<open>removeLast\<close> removed it once more. There
  \<^verbatim>\<open>add(9, -1)\<close>, with \<open>- 1\<close> outside \<open>[0, size]\<close>, meets \<^verbatim>\<open>position === this.size\<close>
  and appends a node. (On a list whose \<^verbatim>\<open>size\<close> counts its nodes the claim holds: lemma
  \<open>out_of_range_on_counted_list\<close>.)
\<close>

theorem add_at_negative_size_inserts:
  "l_first emptied_twice = None \<and> l_last emptied_twice = None \<and> l_size emptied_twice = - 1 \<and>
   (\<exists>s. add (JNum 9) (- 1) emptied_twice = Some (Inr (Some 1, s)) \<and>
        l_first s = Some 1 \<and> l_last s = Some 1 \<and> l_size s = 0 \<and>
        nvalue (heap s 1) = JNum 9)"
  by (simp add: emptied_twice_def one_node_def add_def addLast_def removeFirst_def
      removeLast_def addFirst_def new_Node_def set_next_def set_previous_def
      LinkedList_new_def Let_def)

text \<open>
  Claim C6. On a list that satisfies the invariants, \<^verbatim>\<open>addLast(v)\<close> followed at once by
  \<^verbatim>\<open>removeLast()\<close> returns \<open>v\<close> and restores \<^verbatim>\<open>first\<close>, \<^verbatim>\<open>last\<close> and
  \<^verbatim>\<open>size\<close>; every node of the list is as it was (the heap differs only at the node
  that was added and dropped again), and the invariants hold again for the same nodes.
\<close>

theorem addLast_removeLast_roundtrip:
  assumes "invariants s ns"
  shows "\<exists>n s1. addLast v s = Inr (n, s1) \<and>
           (case removeLast s1 of (r, s2) \<Rightarrow>
              r = v \<and> l_first s2 = l_first s \<and> l_last s2 = l_last s \<and> l_size s2 = l_size s \<and>
              heap s2 = (heap s)(n := \<lparr>nvalue = v, previous = l_last s, nnext = None\<rparr>) \<and>
              n \<notin> set ns \<and> invariants s2 ns)"
proof -
  from assms have R: "nodes_are s ns" "l_size s = int (length ns)"
    "l_last s = (if ns = [] then None else Some (last ns))" "\<forall>n \<in> set ns. n < fresh s"
    using invariants_iff[of s ns] by simp_all
  from assms have ec: "ends_closed s" by (simp add: invariants_def)
  have fst: "l_first s = (if ns = [] then None else Some (hd ns))"
    using R(1) chain_first by (simp add: nodes_are_def)
  have fr: "fresh s \<notin> set ns" using R(4) by auto
  show ?thesis
  proof (cases "ns = []")
    case True
    with fst R(3) have e: "l_first s = None" "l_last s = None" by simp_all
    have "invariants (snd (removeLast (snd (projr (addLast v s))))) ns"
      using assms
      by (rule invariants_frame)
         (simp_all add: e True addLast_def removeLast_def new_Node_def set_next_def set_previous_def Let_def)
    then show ?thesis
      by (simp add: e True addLast_def removeLast_def new_Node_def set_next_def set_previous_def Let_def)
  next
    case False
    with fst R(3) have e: "l_first s = Some (hd ns)" "l_last s = Some (last ns)" by simp_all
    from False fr have ne: "last ns \<noteq> fresh s" by (metis last_in_set)
    from ec e have nx: "nnext (heap s (last ns)) = None" by (simp add: ends_closed_def)
    have same: "(heap s (last ns))\<lparr>nnext := None\<rparr> = heap s (last ns)" using nx by simp
    have "invariants (snd (removeLast (snd (projr (addLast v s))))) ns"
      using assms
      by (rule invariants_frame)
         (use fr ne in \<open>auto simp add: e same addLast_def removeLast_def new_Node_def set_next_def set_previous_def Let_def\<close>)
    then show ?thesis using fr ne
      by (auto simp add: e same fun_eq_iff addLast_def removeLast_def new_Node_def set_next_def set_previous_def Let_def)
  qed
qed


theorem addLast_removeLast_roundtrip_witness:
  "invariants two_nodes [1, 0] \<and>
   (\<exists>n s1. addLast (JNum 7) two_nodes = Inr (n, s1) \<and>
      (case removeLast s1 of (r, s2) \<Rightarrow>
         r = JNum 7 \<and> l_first s2 = Some 1 \<and> l_last s2 = Some 0 \<and> l_size s2 = 2 \<and>
         invariants s2 [1, 0]))"
proof -
  have i: "invariants two_nodes [1, 0]"
    by (simp add: two_nodes_def addFirst_def new_Node_def set_next_def set_previous_def
        LinkedList_new_def Let_def invariants_def anchors_agree_def links_consistent_def
        ends_closed_def size_reaches_last_def nodes_are_def)
  have a: "l_first two_nodes = Some 1" "l_last two_nodes = Some 0" "l_size two_nodes = 2"
    by (simp_all add: two_nodes_def addFirst_def new_Node_def set_next_def set_previous_def
        LinkedList_new_def Let_def)
  show ?thesis
    using i a addLast_removeLast_roundtrip [OF i, of "JNum 7"] by (auto split: prod.splits)
qed

text \<open>
  Claim C7, as the code has it. For a callback that leaves the list alone (it may change
  anything else),
  \<^verbatim>\<open>find\<close> on a list with nodes \<open>ns\<close> does what \<open>visit\<close> says: it calls the callback
  on the nodes in forward order with positions \<open>0, 1, ...\<close>, stops at the first result that
  is not \<^verbatim>\<open>undefined\<close> and returns it, and returns \<^verbatim>\<open>undefined\<close> when no node
  gives one. \<^verbatim>\<open>get\<close> and \<^verbatim>\<open>indexOf\<close> are this traversal with their callbacks.
\<close>

theorem find_is_forward_traversal:
  assumes "nodes_are s ns" and "\<forall>c p w. fst (snd (callback c p w)) = fst w"
  shows "findL callback (s, x) = Some (visit callback ns 0 (s, x)) \<and>
         get index s =
           Some (case visit (\<lambda>current position w.
                              (if position = index then Some current else None, w)) ns 0 (s, ())
                 of (r, w) \<Rightarrow> (r, fst w)) \<and>
         indexOf v s =
           Some (case visit (\<lambda>current position w.
                              (if nvalue (heap (fst w) current) = v then Some position else None, w))
                         ns 0 (s, ())
                 of (r, w) \<Rightarrow> (r, fst w))"
proof -
  from assms(1) have ch: "chain (heap s) (l_first s) ns None" by (simp add: nodes_are_def)
  have "findL callback (s, x) = Some (visit callback ns 0 (s, x))"
    using find_loop_visit[OF assms(2) ch] by (simp add: findL_def)
  moreover have "get index s =
           Some (case visit (\<lambda>current position w.
                              (if position = index then Some current else None, w)) ns 0 (s, ())
                 of (r, w) \<Rightarrow> (r, fst w))"
    using get_nodes[OF assms(1)] by (simp add: visit_get)
  moreover have "indexOf v s =
           Some (case visit (\<lambda>current position w.
                              (if nvalue (heap (fst w) current) = v then Some position else None, w))
                         ns 0 (s, ())
                 of (r, w) \<Rightarrow> (r, fst w))"
    using indexOf_nodes[OF assms(1)] by (simp add: visit_indexOf Let_def)
  ultimately show ?thesis by simp
qed

theorem find_is_forward_traversal_witness:
  "nodes_are two_nodes [1, 0] \<and>
   (\<forall>c p w. fst (snd ((\<lambda>c p (s, log). (if p = 0 then Some c else None, (s, log @ [(c, p)]))) c p w))
      = fst (w :: linked_list \<times> (addr \<times> int) list)) \<and>
   findL (\<lambda>c p (s, log). (if p = 0 then Some c else None, (s, log @ [(c, p)]))) (two_nodes, [])
     = Some (Some 1, (two_nodes, [(1, 0)])) \<and>
   findL (\<lambda>c p (s, log). (if p = 7 then Some c else None, (s, log @ [(c, p)]))) (two_nodes, [])
     = Some (None, (two_nodes, [(1, 0), (0, 1)])) \<and>
   get 1 two_nodes = Some (Some 0, two_nodes) \<and>
   indexOf (JNum 2) two_nodes = Some (Some 1, two_nodes)"
proof -
  have n: "nodes_are two_nodes [1, 0]"
    by (simp add: two_nodes_def nodes_are_def addFirst_def new_Node_def set_next_def
        set_previous_def LinkedList_new_def Let_def)
  have v: "nvalue (heap two_nodes 1) = JNum 1" "nvalue (heap two_nodes 0) = JNum 2"
    by (simp_all add: two_nodes_def addFirst_def new_Node_def set_next_def
        set_previous_def LinkedList_new_def Let_def)
  have p: "\<forall>c p w. fst (snd ((\<lambda>c p (s, log). (if p = k then Some c else None, (s, log @ [(c, p)]))) c p w))
      = fst (w :: linked_list \<times> (addr \<times> int) list)" for k :: int
    by (simp add: split_beta)
  show ?thesis
    using n p [of 0] v
      find_is_forward_traversal [OF n p [of 0], of "[]" 1 "JNum 2"]
      find_is_forward_traversal [OF n p [of 7], of "[]" 1 "JNum 2"]
    by simp
qed

text \<open>
  The claim as it was stated, for every callback, fails: the loop reads \<^verbatim>\<open>current.next\<close>
  after the call. On the list \<open>[1, 2]\<close> (nodes \<open>1\<close> and \<open>0\<close>) a callback that calls
  \<^verbatim>\<open>removeLast()\<close> and returns \<^verbatim>\<open>undefined\<close> is called on node \<open>1\<close> at position 0
  only, never on node \<open>0\<close>, and \<^verbatim>\<open>find\<close> returns \<^verbatim>\<open>undefined\<close>.
\<close>

theorem find_with_removing_callback_counterexample:
  "nodes_are two_nodes [1, 0] \<and>
   map_option (\<lambda>(r, w). (r, snd w))
     (findL (\<lambda>c p (s, log). (None :: unit option, (snd (removeLast s), log @ [(c, p)])))
        (two_nodes, [])) =
   Some (None, [(1, 0)])"
  by (simp add: two_nodes_def nodes_are_def findL_def removeLast_def addFirst_def new_Node_def
      set_next_def set_previous_def LinkedList_new_def Let_def)

text \<open>
  Claim C10. On a list with a finite chain of nodes, \<^verbatim>\<open>find\<close> with a callback that does
  not change the list, \<^verbatim>\<open>get\<close> and \<^verbatim>\<open>indexOf\<close> return, and the list they leave is
  the list they were given: \<^verbatim>\<open>first\<close>, \<^verbatim>\<open>last\<close>, \<^verbatim>\<open>size\<close> and all nodes.
\<close>

theorem queries_leave_list_unchanged:
  assumes "nodes_are s ns" and "\<forall>c p w. fst (snd (callback c p w)) = fst w"
  shows "(\<exists>r x'. findL callback (s, x) = Some (r, (s, x'))) \<and>
         (\<exists>r. get index s = Some (r, s)) \<and> (\<exists>r. indexOf v s = Some (r, s))"
proof -
  from assms(1) have ch: "chain (heap s) (l_first s) ns None" by (simp add: nodes_are_def)
  have "findL callback (s, x) = Some (visit callback ns 0 (s, x))"
    using find_loop_visit[OF assms(2) ch] by (simp add: findL_def)
  moreover have "fst (snd (visit callback ns 0 (s, x))) = s"
    using visit_keeps_list[OF assms(2)] by simp
  ultimately have "\<exists>r x'. findL callback (s, x) = Some (r, (s, x'))"
    by (metis prod.collapse)
  then show ?thesis
    by (simp add: get_nodes[OF assms(1)] indexOf_nodes[OF assms(1)])
qed

theorem queries_leave_list_unchanged_witness:
  "nodes_are two_nodes [1, 0] \<and>
   (\<forall>c p w. fst (snd ((\<lambda>c p (s, log). (None :: unit option, (s, log @ [(c, p)]))) c p w))
      = fst (w :: linked_list \<times> (addr \<times> int) list)) \<and>
   (\<exists>r x'. findL (\<lambda>c p (s, log). (None :: unit option, (s, log @ [(c, p)]))) (two_nodes, [])
      = Some (r, (two_nodes, x'))) \<and>
   (\<exists>r. get 1 two_nodes = Some (r, two_nodes)) \<and>
   (\<exists>r. indexOf (JNum 2) two_nodes = Some (r, two_nodes))"
proof -
  have n: "nodes_are two_nodes [1, 0]"
    by (simp add: two_nodes_def nodes_are_def addFirst_def new_Node_def set_next_def
        set_previous_def LinkedList_new_def Let_def)
  have p: "\<forall>c p w. fst (snd ((\<lambda>c p (s, log). (None :: unit option, (s, log @ [(c, p)]))) c p w))
      = fst (w :: linked_list \<times> (addr \<times> int) list)"
    by (simp add: split_beta)
  show ?thesis
    using n p queries_leave_list_unchanged [OF n p, of "[]" 1 "JNum 2"] by simp
qed

text \<open>
  Claim C4, as the code has it. On a list that satisfies the invariants:
  \<^verbatim>\<open>remove\<close> with a predicate that leaves the list alone (it may change anything else)
  and accepts no node returns \<^verbatim>\<open>false\<close> and the list is as it was; with a
  position-like argument whose position \<^verbatim>\<open>parseInt(x, 10) || 0\<close> is no node's position
  it returns \<^verbatim>\<open>undefined\<close> (not \<^verbatim>\<open>false\<close>) and the list is as it was; in both
  other cases it returns the value of the node at the position found, the chain from
  \<^verbatim>\<open>first\<close> is the old one without that node, and \<^verbatim>\<open>size\<close> is one less.
\<close>

theorem remove_results:
  assumes "invariants s ns" and "\<forall>node index w. fst (snd (f node index w)) = fst w"
  shows "(\<exists>r x'. first_accept f ns 0 (s, x) = (r, (s, x'))) \<and>
         (\<forall>x'. first_accept f ns 0 (s, x) = (None, (s, x')) \<longrightarrow>
            removeL (Fn f) (s, x) = Some (Inr (JBool False, (s, x')))) \<and>
         (\<forall>k x'. first_accept f ns 0 (s, x) = (Some k, (s, x')) \<longrightarrow>
            (\<exists>s'. removeL (Fn f) (s, x) =
                     Some (Inr (nvalue (heap s (ns ! nat k)), (s', x'))) \<and>
                   nodes_are s' (take (nat k) ns @ drop (Suc (nat k)) ns) \<and>
                   l_size s' = l_size s - 1)) \<and>
         (or_zero (parseInt v) < 0 \<or> int (length ns) \<le> or_zero (parseInt v) \<longrightarrow>
            removeL (NotFn v) (s, x) = Some (Inr (Undefined, (s, x)))) \<and>
         (0 \<le> or_zero (parseInt v) \<and> or_zero (parseInt v) < int (length ns) \<longrightarrow>
            (\<exists>s'. removeL (NotFn v) (s, x) =
                     Some (Inr (nvalue (heap s (ns ! nat (or_zero (parseInt v)))), (s', x))) \<and>
                   nodes_are s' (take (nat (or_zero (parseInt v))) ns @
                                 drop (Suc (nat (or_zero (parseInt v)))) ns) \<and>
                   l_size s' = l_size s - 1))"
proof -
  from assms(1) have n: "nodes_are s ns" using invariants_iff[of s ns] by simp
  have present: "\<exists>s'. removeByPosition p s = Some (Inr (nvalue (heap s (ns ! nat p)), s')) \<and>
              nodes_are s' (take (nat p) ns @ drop (Suc (nat p)) ns) \<and> l_size s' = l_size s - 1"
    if "0 \<le> p" "p < int (length ns)" for p
    using removeByPosition_present[OF assms(1), of "nat p"] that by simp
  note f = findL_accept[OF n assms(2), of x]
  from f have f1: "findL (\<lambda>node index w'. case f node index w' of
                             (b, w'') \<Rightarrow> (if b then Some index else None, w'')) (s, x) =
         Some (first_accept f ns 0 (s, x))" by simp
  have t: "\<exists>r x'. first_accept f ns 0 (s, x) = (r, (s, x'))"
    using f by (metis prod.collapse)
  have a: "\<forall>x'. first_accept f ns 0 (s, x) = (None, (s, x')) \<longrightarrow>
            removeL (Fn f) (s, x) = Some (Inr (JBool False, (s, x')))"
    by (simp add: removeL_def f1)
  have b: "\<forall>k x'. first_accept f ns 0 (s, x) = (Some k, (s, x')) \<longrightarrow>
            (\<exists>s'. removeL (Fn f) (s, x) =
                     Some (Inr (nvalue (heap s (ns ! nat k)), (s', x'))) \<and>
                   nodes_are s' (take (nat k) ns @ drop (Suc (nat k)) ns) \<and>
                   l_size s' = l_size s - 1)"
  proof (intro allI impI)
    fix k x' assume k: "first_accept f ns 0 (s, x) = (Some k, (s, x'))"
    from first_accept_bounds[OF k] have "0 \<le> k" "k < int (length ns)" by simp_all
    from present[OF this] obtain s' where
      "removeByPosition k s = Some (Inr (nvalue (heap s (ns ! nat k)), s'))"
      "nodes_are s' (take (nat k) ns @ drop (Suc (nat k)) ns)" "l_size s' = l_size s - 1"
      by blast
    then show "\<exists>s'. removeL (Fn f) (s, x) =
                     Some (Inr (nvalue (heap s (ns ! nat k)), (s', x'))) \<and>
                   nodes_are s' (take (nat k) ns @ drop (Suc (nat k)) ns) \<and>
                   l_size s' = l_size s - 1"
      by (simp add: removeL_def f1 k)
  qed
  have c: "or_zero (parseInt v) < 0 \<or> int (length ns) \<le> or_zero (parseInt v) \<longrightarrow>
            removeL (NotFn v) (s, x) = Some (Inr (Undefined, (s, x)))"
    using removeByPosition_absent[OF assms(1), of "or_zero (parseInt v)"]
    by (auto simp add: removeL_def)
  have d: "0 \<le> or_zero (parseInt v) \<and> or_zero (parseInt v) < int (length ns) \<longrightarrow>
            (\<exists>s'. removeL (NotFn v) (s, x) =
                     Some (Inr (nvalue (heap s (ns ! nat (or_zero (parseInt v)))), (s', x))) \<and>
                   nodes_are s' (take (nat (or_zero (parseInt v))) ns @
                                 drop (Suc (nat (or_zero (parseInt v)))) ns) \<and>
                   l_size s' = l_size s - 1)"
  proof
    assume r: "0 \<le> or_zero (parseInt v) \<and> or_zero (parseInt v) < int (length ns)"
    then obtain s' where
      "removeByPosition (or_zero (parseInt v)) s =
         Some (Inr (nvalue (heap s (ns ! nat (or_zero (parseInt v)))), s'))"
      "nodes_are s' (take (nat (or_zero (parseInt v))) ns @ drop (Suc (nat (or_zero (parseInt v)))) ns)"
      "l_size s' = l_size s - 1"
      using present[of "or_zero (parseInt v)"] by blast
    then show "\<exists>s'. removeL (NotFn v) (s, x) =
                     Some (Inr (nvalue (heap s (ns ! nat (or_zero (parseInt v)))), (s', x))) \<and>
                   nodes_are s' (take (nat (or_zero (parseInt v))) ns @
                                 drop (Suc (nat (or_zero (parseInt v)))) ns) \<and>
                   l_size s' = l_size s - 1"
      by (simp add: removeL_def)
  qed
  from t a b c d show ?thesis by blast
qed

theorem remove_results_witness:
  "invariants two_nodes [1, 0] \<and>
   (\<forall>node index w. fst (snd ((\<lambda>node index (s, count).
        (nvalue (heap s node) = JStr ''x'', (s, Suc count))) node index w))
      = fst (w :: linked_list \<times> nat)) \<and>
   removeL (Fn (\<lambda>node index (s, count). (nvalue (heap s node) = JStr ''x'', (s, Suc count))))
       (two_nodes, 0)
     = Some (Inr (JBool False, (two_nodes, 2))) \<and>
   removeL (NotFn (JNum 5)) (two_nodes, 0 :: nat) = Some (Inr (Undefined, (two_nodes, 0))) \<and>
   (\<exists>s'. removeL (NotFn (JNum 1)) (two_nodes, 0 :: nat) = Some (Inr (JNum 2, (s', 0))) \<and>
         nodes_are s' [1] \<and> l_size s' = 1) \<and>
   (\<exists>s'. removeL (Fn (\<lambda>node index (s, count). (nvalue (heap s node) = JNum 1, (s, Suc count))))
            (two_nodes, 0)
            = Some (Inr (JNum 1, (s', 1))) \<and>
         nodes_are s' [0] \<and> l_size s' = 1)"
proof -
  have i: "invariants two_nodes [1, 0]"
    by (simp add: two_nodes_def addFirst_def new_Node_def set_next_def set_previous_def
        LinkedList_new_def Let_def invariants_def anchors_agree_def links_consistent_def
        ends_closed_def size_reaches_last_def nodes_are_def)
  have v: "nvalue (heap two_nodes 1) = JNum 1" "nvalue (heap two_nodes 0) = JNum 2"
    "l_size two_nodes = 2"
    by (simp_all add: two_nodes_def addFirst_def new_Node_def set_next_def set_previous_def
        LinkedList_new_def Let_def)
  have p: "or_zero (parseInt (JNum 5)) = 5" "or_zero (parseInt (JNum 1)) = 1" by code_simp+
  have q: "\<forall>node index w. fst (snd ((\<lambda>node index (s, count).
        (nvalue (heap s node) = u, (s, Suc count))) node index w))
      = fst (w :: linked_list \<times> nat)" for u
    by (simp add: split_beta)
  show ?thesis
    using i v p q [of "JStr ''x''"]
      remove_results [OF i q [of "JStr ''x''"], of 0 "JNum 5"]
      remove_results [OF i q [of "JNum 1"], of 0 "JNum 1"]
    by simp
qed

text \<open>
  The claim as it was stated fails: on the list \<open>[1, 2]\<close>, \<^verbatim>\<open>remove(5)\<close> returns
  \<^verbatim>\<open>undefined\<close>, which is not \<^verbatim>\<open>false\<close>. It also fails for a predicate that
  changes the list: one that at index 1 calls \<^verbatim>\<open>removeFirst()\<close> and accepts makes
  \<^verbatim>\<open>remove\<close> look for position 1 in a list of one node, so that it returns
  \<^verbatim>\<open>undefined\<close>, neither \<^verbatim>\<open>false\<close> nor a value it removed.
\<close>

theorem remove_by_missing_position_counterexample:
  "invariants two_nodes [1, 0] \<and>
   removeL (NotFn (JNum 5)) (two_nodes, ()) = Some (Inr (Undefined, (two_nodes, ()))) \<and>
   Undefined \<noteq> JBool False \<and>
   map_option (map_sum id (\<lambda>(r, w). (r, l_size (fst w))))
     (removeL (Fn (\<lambda>node index (s, u).
                     if index = 1 then (True, (snd (removeFirst s), u)) else (False, (s, u))))
        (two_nodes, ())) =
   Some (Inr (Undefined, 1))"
proof -
  have i: "invariants two_nodes [1, 0]"
    by (simp add: two_nodes_def addFirst_def new_Node_def set_next_def set_previous_def
        LinkedList_new_def Let_def invariants_def anchors_agree_def links_consistent_def
        ends_closed_def size_reaches_last_def nodes_are_def)
  have p: "or_zero (parseInt (JNum 5)) = 5" by code_simp
  have "removeByPosition 5 two_nodes = Some (Inr (Undefined, two_nodes))"
    using i by (rule removeByPosition_absent) simp
  with i p have a: "invariants two_nodes [1, 0] \<and>
      removeL (NotFn (JNum 5)) (two_nodes, ()) = Some (Inr (Undefined, (two_nodes, ()))) \<and>
      Undefined \<noteq> JBool False"
    by (simp add: removeL_def)
  have b: "map_option (map_sum id (\<lambda>(r, w). (r, l_size (fst w))))
     (removeL (Fn (\<lambda>node index (s, u).
                     if index = 1 then (True, (snd (removeFirst s), u)) else (False, (s, u))))
        (two_nodes, ())) =
   Some (Inr (Undefined, 1))"
    by (simp add: removeL_def removeByPosition_def get_def findL_def removeFirst_def
        removeLast_def value_of_def two_nodes_def addFirst_def new_Node_def set_next_def
        set_previous_def LinkedList_new_def Let_def)
  from a b show ?thesis by simp
qed

text \<open>
  Claim C8. When the argument of \<^verbatim>\<open>remove\<close> is not a function and \<^verbatim>\<open>parseInt\<close>
  gives \<^verbatim>\<open>NaN\<close> or \<open>0\<close> for it, \<^verbatim>\<open>remove\<close> is \<^verbatim>\<open>removeByPosition(0)\<close>, on
  every state; on a list with a head it returns the head's value, the chain from
  \<^verbatim>\<open>first\<close> is the rest of the list and \<^verbatim>\<open>size\<close> is one less.
\<close>

theorem remove_non_numeric_is_position_zero:
  assumes "parseInt v = None \<or> parseInt v = Some 0"
  shows "removeL (NotFn v) (s, x) =
           (case removeByPosition 0 s of
              None \<Rightarrow> None
            | Some (Inl e) \<Rightarrow> Some (Inl e)
            | Some (Inr (r, s')) \<Rightarrow> Some (Inr (r, (s', x)))) \<and>
         (\<forall>a as. nodes_are s (a # as) \<longrightarrow>
            (\<exists>s'. removeL (NotFn v) (s, x) = Some (Inr (nvalue (heap s a), (s', x))) \<and>
                   nodes_are s' as \<and> l_size s' = l_size s - 1))"
proof -
  from assms have z: "or_zero (parseInt v) = 0" by (auto simp: or_zero_def)
  have "\<exists>s'. removeL (NotFn v) (s, x) = Some (Inr (nvalue (heap s a), (s', x))) \<and>
                   nodes_are s' as \<and> l_size s' = l_size s - 1"
    if "nodes_are s (a # as)" for a as
    using removeByPosition_zero[OF that] removeFirst_nodes[OF that]
    by (simp add: removeL_def z)
  moreover have "removeL (NotFn v) (s, x) =
           (case removeByPosition 0 s of
              None \<Rightarrow> None
            | Some (Inl e) \<Rightarrow> Some (Inl e)
            | Some (Inr (r, s')) \<Rightarrow> Some (Inr (r, (s', x))))"
    by (simp add: removeL_def z split: option.split sum.split)
  ultimately show ?thesis by blast
qed

theorem remove_non_numeric_is_position_zero_witness:
  "(parseInt (JStr ''abc'') = None \<or> parseInt (JStr ''abc'') = Some 0) \<and>
   nodes_are two_nodes [1, 0] \<and>
   (\<exists>s'. removeL (NotFn (JStr ''abc'')) (two_nodes, ()) = Some (Inr (JNum 1, (s', ()))) \<and>
         nodes_are s' [0] \<and> l_size s' = 1)"
proof -
  have p: "parseInt (JStr ''abc'') = None \<or> parseInt (JStr ''abc'') = Some 0" by code_simp
  have n: "nodes_are two_nodes [1, 0]"
    by (simp add: two_nodes_def nodes_are_def addFirst_def new_Node_def set_next_def
        set_previous_def LinkedList_new_def Let_def)
  have v: "nvalue (heap two_nodes 1) = JNum 1" "l_size two_nodes = 2"
    by (simp_all add: two_nodes_def addFirst_def new_Node_def set_next_def set_previous_def
        LinkedList_new_def Let_def)
  from remove_non_numeric_is_position_zero [OF p, of two_nodes "()"] n
  have "\<exists>s'. removeL (NotFn (JStr ''abc'')) (two_nodes, ()) =
               Some (Inr (nvalue (heap two_nodes 1), (s', ()))) \<and>
             nodes_are s' [0] \<and> l_size s' = l_size two_nodes - 1"
    by blast
  with p n v show ?thesis by simp
qed

text \<open>
  Claim C9, as the code has it. On a non-empty list that satisfies the invariants,
  \<^verbatim>\<open>removeFirst\<close> (\<^verbatim>\<open>removeLast\<close>) returns the value stored in the first (last)
  node, whatever it is, \<^verbatim>\<open>undefined\<close> included; the node leaves the chain and
  \<^verbatim>\<open>size\<close> goes down by one. On the empty list both return \<^verbatim>\<open>null\<close> and change
  nothing. So it is a stored \<^verbatim>\<open>null\<close> that a caller cannot tell from the empty list.
\<close>

theorem remove_ends_results:
  assumes "invariants s ns"
  shows "(ns = [] \<longrightarrow> removeFirst s = (Null, s) \<and> removeLast s = (Null, s)) \<and>
         (ns \<noteq> [] \<longrightarrow>
            fst (removeFirst s) = nvalue (heap s (hd ns)) \<and>
            nodes_are (snd (removeFirst s)) (tl ns) \<and>
            l_size (snd (removeFirst s)) = l_size s - 1 \<and>
            fst (removeLast s) = nvalue (heap s (last ns)) \<and>
            nodes_are (snd (removeLast s)) (butlast ns) \<and>
            l_size (snd (removeLast s)) = l_size s - 1)"
proof (intro conjI impI)
  from assms have R: "nodes_are s ns" "l_last s = (if ns = [] then None else Some (last ns))"
    using invariants_iff[of s ns] by simp_all
  have f: "l_first s = (if ns = [] then None else Some (hd ns))"
    using R(1) chain_first by (simp add: nodes_are_def)
  have same: "s\<lparr>l_last := None\<rparr> = s" if "l_last s = None" using that by (cases s) simp
  { assume "ns = []"
    with R f have e: "l_first s = None" "l_last s = None" by simp_all
    show "removeFirst s = (Null, s)" by (simp add: removeFirst_def e same)
    show "removeLast s = (Null, s)" by (simp add: removeLast_def e) }
  { assume ne: "ns \<noteq> []"
    then have "nodes_are s (hd ns # tl ns)" using R(1) by simp
    from removeFirst_nodes[OF this]
    show "fst (removeFirst s) = nvalue (heap s (hd ns))"
      "nodes_are (snd (removeFirst s)) (tl ns)" "l_size (snd (removeFirst s)) = l_size s - 1"
      by simp_all
    from removeLast_nodes[OF assms ne]
    show "fst (removeLast s) = nvalue (heap s (last ns))"
      "nodes_are (snd (removeLast s)) (butlast ns)" "l_size (snd (removeLast s)) = l_size s - 1"
      by simp_all }
qed

theorem remove_ends_results_witness:
  "invariants (snd (addFirst Undefined LinkedList_new)) [0] \<and>
   invariants LinkedList_new [] \<and>
   fst (removeFirst (snd (addFirst Undefined LinkedList_new))) = Undefined \<and>
   nodes_are (snd (removeFirst (snd (addFirst Undefined LinkedList_new)))) [] \<and>
   l_size (snd (removeFirst (snd (addFirst Undefined LinkedList_new)))) = 0 \<and>
   fst (removeLast (snd (addFirst Undefined LinkedList_new))) = Undefined \<and>
   l_size (snd (removeLast (snd (addFirst Undefined LinkedList_new)))) = 0 \<and>
   removeFirst LinkedList_new = (Null, LinkedList_new) \<and>
   removeLast LinkedList_new = (Null, LinkedList_new)"
proof -
  have i: "invariants (snd (addFirst Undefined LinkedList_new)) [0]"
    by (simp add: addFirst_def new_Node_def set_next_def set_previous_def
        LinkedList_new_def Let_def invariants_def anchors_agree_def links_consistent_def
        ends_closed_def size_reaches_last_def nodes_are_def)
  have e: "invariants LinkedList_new []"
    by (simp add: LinkedList_new_def invariants_def anchors_agree_def links_consistent_def
        ends_closed_def size_reaches_last_def nodes_are_def)
  have v: "nvalue (heap (snd (addFirst Undefined LinkedList_new)) 0) = Undefined"
    "l_size (snd (addFirst Undefined LinkedList_new)) = 1"
    by (simp_all add: addFirst_def new_Node_def set_next_def set_previous_def
        LinkedList_new_def Let_def)
  show ?thesis
    using i e v remove_ends_results [OF i] remove_ends_results [OF e] by simp
qed

text \<open>
  The claim as it was stated fails: with \<^verbatim>\<open>undefined\<close> stored the result is
  \<^verbatim>\<open>undefined\<close>, and on the empty list it is \<^verbatim>\<open>null\<close>, a different value.
\<close>

theorem undefined_is_not_the_empty_result:
  "fst (removeFirst (snd (addFirst Undefined LinkedList_new))) = Undefined \<and>
   fst (removeFirst LinkedList_new) = Null \<and>
   fst (removeLast (snd (addFirst Undefined LinkedList_new))) = Undefined \<and>
   fst (removeLast LinkedList_new) = Null \<and>
   Undefined \<noteq> Null"
  by (simp add: removeFirst_def removeLast_def addFirst_def new_Node_def set_next_def
      set_previous_def LinkedList_new_def Let_def)

text \<open>
  Claim C1 asks that each node's successor points back to it after every operation.
  \<^verbatim>\<open>add(9, 1)\<close> on the list \<open>[1, 2]\<close> (nodes \<open>1\<close> and \<open>0\<close>, invariants holding)
  returns the new node \<open>2\<close> and leaves the chain \<open>1, 2, 0\<close>, in which the successor of the
  new node is node \<open>0\<close> while the \<^verbatim>\<open>previous\<close> link of node \<open>0\<close> is still node \<open>1\<close>.
\<close>

theorem add_in_the_middle_breaks_links:
  "invariants two_nodes [1, 0] \<and>
   (\<exists>s. add (JNum 9) 1 two_nodes = Some (Inr (Some 2, s)) \<and>
        nodes_are s [1, 2, 0] \<and> \<not> links_consistent s [1, 2, 0])"
  by (simp add: two_nodes_def add_def get_def findL_def addFirst_def new_Node_def set_next_def
      set_previous_def LinkedList_new_def Let_def invariants_def anchors_agree_def
      links_consistent_def ends_closed_def size_reaches_last_def nodes_are_def)

text \<open>
  Claim C2 asks that after \<^verbatim>\<open>add(value, p)\<close> with \<open>0 < p < size\<close> the node formerly at
  \<open>p\<close> has the new node as its \<^verbatim>\<open>previous\<close>. \<^verbatim>\<open>add(9, 1)\<close> on the list \<open>[1, 2]\<close>
  sets the links of the new node \<open>2\<close> and the \<^verbatim>\<open>next\<close> of node \<open>1\<close>, and adds one to
  \<^verbatim>\<open>size\<close>; the \<^verbatim>\<open>previous\<close> of node \<open>0\<close>, formerly at position 1, stays node \<open>1\<close>.
\<close>

theorem add_keeps_old_previous:
  "\<exists>s. add (JNum 9) 1 two_nodes = Some (Inr (Some 2, s)) \<and>
       l_size s = 3 \<and> nnext (heap s 1) = Some 2 \<and>
       previous (heap s 2) = Some 1 \<and> nnext (heap s 2) = Some 0 \<and>
       previous (heap s 0) = Some 1 \<and> previous (heap s 0) \<noteq> Some 2"
  by (simp add: two_nodes_def add_def get_def findL_def addFirst_def new_Node_def set_next_def
      set_previous_def LinkedList_new_def Let_def)

text \<open>
  Claim C3 asks that \<^verbatim>\<open>size == 0\<close>, \<^verbatim>\<open>first == null\<close> and \<^verbatim>\<open>last == null\<close> go
  together after every operation. \<^verbatim>\<open>removeFirst()\<close> on the list \<open>[1]\<close> (node \<open>0\<close>,
  invariants holding) returns \<open>1\<close> and leaves \<^verbatim>\<open>size\<close> 0 and \<^verbatim>\<open>first\<close>
  \<^verbatim>\<open>null\<close>, but \<^verbatim>\<open>last\<close> still node \<open>0\<close>.
\<close>

theorem removeFirst_keeps_stale_last:
  "invariants one_node [0] \<and>
   (\<exists>s. removeFirst one_node = (JNum 1, s) \<and>
        l_size s = 0 \<and> l_first s = None \<and> l_last s = Some 0 \<and> \<not> anchors_agree s)"
  by (simp add: one_node_def removeFirst_def addFirst_def new_Node_def set_next_def
      set_previous_def LinkedList_new_def Let_def invariants_def anchors_agree_def
      links_consistent_def ends_closed_def size_reaches_last_def nodes_are_def)

end
